theory Spec2Isabelle
  imports Main
begin

section \<open>The saga engine of saga.go\<close>

text \<open>
  The engine calls user functions through Go's reflection and writes one log entry per
  transition to a log store. Both are outside the engine, so the model keeps them in a
  world of type \<open>'w\<close>: a user function and the store's \<open>AppendLog\<close> read and change the
  world. A panic is a value: every operation returns either \<open>Ok\<close> with its result and the
  saga after it, or \<open>Panic\<close> with the panic value and the saga as the panic found it.
  The field \<open>trace\<close> is the observation of a run: every call of \<open>AppendLog\<close> and every
  \<open>reflect.Value.Call\<close>, in the order in which the engine made them, each call with the
  world it found and the world it left.
\<close>

subsection \<open>Reflected values\<close>

text \<open>
  The Go types a reflected value can have here, and the values. A value of type
  \<open>error\<close> is an interface value, nil or holding an error with its message.
\<close>

type_synonym error = string

datatype ty = TContext | TError | TInt | TString

datatype val = VContext | VError "error option" | VInt int | VString string

fun type_of :: "val \<Rightarrow> ty" where
  "type_of VContext = TContext"
| "type_of (VError e) = TError"
| "type_of (VInt n) = TInt"
| "type_of (VString x) = TString"

datatype panic =
    LogPanic error          \<comment> \<open>\<open>llog.Panicln\<close> in \<open>checkErr\<close>\<close>
  | ErrPanic error          \<comment> \<open>\<open>panic(err)\<close> in \<open>compensateStep\<close>\<close>
  | CallPanic               \<comment> \<open>\<open>reflect.Value.Call\<close>: arguments do not fit the parameters\<close>
  | IsNilPanic              \<comment> \<open>\<open>reflect.Value.IsNil\<close> on a value that cannot be nil\<close>
  | AssertPanic             \<comment> \<open>the type assertion \<open>.(error)\<close> on a value that is no error\<close>
  | IndexPanic              \<comment> \<open>index out of range\<close>

text \<open>
  What a step holds in \<open>Func\<close> and \<open>CompensateFunc\<close> is an \<open>interface{}\<close>: any Go
  value. A function has its parameter types (\<open>ins\<close>) and its body, which takes the
  arguments and the world and gives the returned values and the new world. The model
  leaves out what is the caller's: functions are not nil and not variadic, an argument
  fits a parameter when the types are the same, and a body returns (it neither panics
  nor runs forever). The context of the saga is not nil.
\<close>

datatype 'w obj =
    ObjNil
  | ObjString string
  | ObjInt int
  | ObjFunc (ins: "ty list") (body: "val list \<Rightarrow> 'w \<Rightarrow> val list \<times> 'w")

fun isFunc :: "'w obj \<Rightarrow> bool" where
  "isFunc (ObjFunc tys b) = True"
| "isFunc x = False"

subsection \<open>Log entries\<close>

text \<open>
  Modelled from the spec: the type \<open>Log\<close>, its \<open>LogType\<close> constants and the interface
  \<open>Store\<close> are used by saga.go and declared elsewhere. Section 6 of the specification
  gives the five kinds of event and the fields of an event; the timestamp is left out.
\<close>

datatype LogType =
  LogTypeStartSaga | LogTypeSagaStepExec | LogTypeSagaStepCompensate
  | LogTypeSagaAbort | LogTypeSagaComplete

record Log =
  LogExecutionID :: string
  LogName :: string
  Type :: LogType
  StepNumber :: "nat option"
  StepName :: "string option"

datatype 'w event =
    Appended Log "error option"       \<comment> \<open>\<open>AppendLog\<close> was called and returned this\<close>
  | FuncCalled nat "val list" 'w "val list" 'w
      \<comment> \<open>\<open>execStep i\<close> called the forward function: arguments, world before,
          results, world after\<close>
  | CompensateCalled nat "val list" 'w "val list" 'w
      \<comment> \<open>\<open>compensateStep i\<close> called the bound function: arguments, world before,
          results, world after\<close>

subsection \<open>Step, Result, Saga\<close>

type_synonym StepOptions = unit

record 'w Step =
  Name :: string
  Func :: "'w obj"
  CompensateFunc :: "'w obj"
  Options :: "StepOptions option"

record Result =
  Err :: "error option"

record 'w Saga =
  ExecutionID :: string
  SagaName :: string
  returnedValuesFromFunc :: "val list list"
  toCompensate :: "'w obj list"
  aborted :: bool
  err :: "error option"
  steps :: "'w Step list"
  logStore :: "Log \<Rightarrow> 'w \<Rightarrow> error option \<times> 'w"
  world :: 'w
  trace :: "'w event list"

datatype ('a, 'w) outcome = Ok 'a "'w Saga" | Panic panic "'w Saga"

fun final :: "('a, 'w) outcome \<Rightarrow> 'w Saga" where
  "final (Ok x s) = s"
| "final (Panic p s) = s"

fun returns :: "('a, 'w) outcome \<Rightarrow> bool" where
  "returns (Ok x s) = True"
| "returns (Panic p s) = False"

text \<open>
  \<open>NewSaga\<close>: the execution identifier comes from \<open>RandString\<close>, a random source; it is
  an argument here. The context is the value \<open>VContext\<close>.
\<close>

definition NewSaga :: "string \<Rightarrow> string \<Rightarrow> (Log \<Rightarrow> 'w \<Rightarrow> error option \<times> 'w) \<Rightarrow> 'w \<Rightarrow> 'w Saga" where
  "NewSaga eid name store w =
     \<lparr>ExecutionID = eid, SagaName = name, returnedValuesFromFunc = [], toCompensate = [],
      aborted = False, err = None, steps = [], logStore = store, world = w, trace = []\<rparr>"

definition AddStep :: "'w Step \<Rightarrow> 'w Saga \<Rightarrow> 'w Saga" where
  "AddStep step saga = saga\<lparr>steps := steps saga @ [step]\<rparr>"

subsection \<open>The helpers\<close>

definition checkErr :: "error option \<Rightarrow> panic option" where
  "checkErr e = (case e of None \<Rightarrow> None | Some m \<Rightarrow> Some (LogPanic m))"

text \<open>
  \<open>checkErr(saga.logStore.AppendLog(l))\<close>; \<open>logged l saga\<close> is the saga once
  \<open>AppendLog\<close> has returned.
\<close>

definition logged :: "Log \<Rightarrow> 'w Saga \<Rightarrow> 'w Saga" where
  "logged l saga =
     saga\<lparr>world := snd (logStore saga l (world saga)),
          trace := trace saga @ [Appended l (fst (logStore saga l (world saga)))]\<rparr>"

definition appendLog :: "Log \<Rightarrow> 'w Saga \<Rightarrow> (unit, 'w) outcome" where
  "appendLog l saga =
     (case checkErr (fst (logStore saga l (world saga))) of
        None \<Rightarrow> Ok () (logged l saga)
      | Some p \<Rightarrow> Panic p (logged l saga))"

definition IsNil :: "val \<Rightarrow> panic + bool" where
  "IsNil v = (case v of VContext \<Rightarrow> Inr False | VError e \<Rightarrow> Inr (e = None)
              | VInt n \<Rightarrow> Inl IsNilPanic | VString x \<Rightarrow> Inl IsNilPanic)"

definition isReturnError :: "val list \<Rightarrow> panic + error option" where
  "isReturnError result =
     (if length result > 0 then
        (case IsNil (result ! (length result - 1)) of
           Inl p \<Rightarrow> Inl p
         | Inr True \<Rightarrow> Inr None
         | Inr False \<Rightarrow>
             (case result ! (length result - 1) of
                VError (Some e) \<Rightarrow> Inr (Some e)
              | _ \<Rightarrow> Inl AssertPanic))
      else Inr None)"

definition addParams :: "val list \<Rightarrow> val list \<Rightarrow> val list" where
  "addParams values returned =
     (if length returned > 1
      then fold (\<lambda>i vs. vs @ [returned ! i]) [0 ..< length returned - 1] values
      else values)"

definition getFuncValue :: "'w obj \<Rightarrow> panic + 'w obj" where
  "getFuncValue x =
     (if \<not> isFunc x then
        (case checkErr (Some ''registered object must be a func'') of
           Some p \<Rightarrow> Inl p | None \<Rightarrow> Inl CallPanic)
      else if length (ins x) < 1 \<or> ins x ! 0 \<noteq> TContext then
        (case checkErr (Some ''first argument must use context.ctx'') of
           Some p \<Rightarrow> Inl p | None \<Rightarrow> Inr x)
      else Inr x)"

text \<open>
  \<open>reflect.Value.Call\<close> panics unless there is one argument per parameter, each of the
  parameter's type; otherwise it runs the body.
\<close>

definition Call :: "'w obj \<Rightarrow> val list \<Rightarrow> 'w \<Rightarrow> panic + (val list \<times> 'w)" where
  "Call f params w =
     (if isFunc f \<and> map type_of params = ins f then Inr (body f params w)
      else Inl CallPanic)"

subsection \<open>compensateStep, abort, execStep, Play\<close>

text \<open>The \<open>Log\<close> literal that every operation builds: identifier and name of the saga,
  the type of the event, and for a step its number and name.\<close>

definition newLog :: "'w Saga \<Rightarrow> LogType \<Rightarrow> nat option \<Rightarrow> string option \<Rightarrow> Log" where
  "newLog saga t n name =
     \<lparr>LogExecutionID = ExecutionID saga, LogName = SagaName saga, Type = t,
      StepNumber = n, StepName = name\<rparr>"

text \<open>The saga once \<open>compensateFunc.Call(params)\<close> has returned \<open>res\<close>.\<close>

definition called_compensate :: "nat \<Rightarrow> val list \<Rightarrow> val list \<Rightarrow> 'w \<Rightarrow> 'w Saga \<Rightarrow> 'w Saga" where
  "called_compensate i params res w saga =
     saga\<lparr>world := w,
          trace := trace saga @ [CompensateCalled i params (world saga) res w]\<rparr>"

definition compensateStep :: "nat \<Rightarrow> 'w Saga \<Rightarrow> (unit, 'w) outcome" where
  "compensateStep i saga =
     (if \<not> i < length (steps saga) then Panic IndexPanic saga
      else
       (case appendLog (newLog saga LogTypeSagaStepCompensate (Some i)
                          (Some (Name (steps saga ! i)))) saga of
          Panic p s1 \<Rightarrow> Panic p s1
        | Ok u s1 \<Rightarrow>
           (if \<not> i < length (returnedValuesFromFunc s1) then Panic IndexPanic s1
            else
             (let params = addParams [VContext] (returnedValuesFromFunc s1 ! i) in
               (if \<not> i < length (toCompensate s1) then Panic IndexPanic s1
                else
                 (case Call (toCompensate s1 ! i) params (world s1) of
                    Inl p \<Rightarrow> Panic p s1
                  | Inr (res, w) \<Rightarrow>
                     (case isReturnError res of
                        Inl p \<Rightarrow> Panic p (called_compensate i params res w s1)
                      | Inr (Some e) \<Rightarrow>
                          Panic (ErrPanic e) (called_compensate i params res w s1)
                      | Inr None \<Rightarrow> Ok () (called_compensate i params res w s1))))))))"

text \<open>
  The loop of \<open>abort\<close>, \<open>for i := stepsToCompensate - 1; i >= 0; i--\<close>: the argument is
  \<open>i + 1\<close>, the number of compensations still to run.
\<close>

fun compensateLoop :: "nat \<Rightarrow> 'w Saga \<Rightarrow> (unit, 'w) outcome" where
  "compensateLoop 0 saga = Ok () saga"
| "compensateLoop (Suc i) saga =
     (case compensateStep i saga of
        Panic p s1 \<Rightarrow> Panic p s1
      | Ok u s1 \<Rightarrow> compensateLoop i s1)"

definition abort :: "'w Saga \<Rightarrow> (unit, 'w) outcome" where
  "abort saga =
     (let stepsToCompensate = length (toCompensate saga) in
       (case appendLog (newLog saga LogTypeSagaAbort (Some stepsToCompensate) None) saga of
          Panic p s1 \<Rightarrow> Panic p s1
        | Ok u s1 \<Rightarrow> compensateLoop stepsToCompensate (s1\<lparr>aborted := True\<rparr>)))"

text \<open>
  The saga once the forward function has returned \<open>resp\<close>, and once \<open>execStep\<close> has
  appended the bound compensating function and \<open>resp\<close> to its two lists.
\<close>

definition called_func :: "nat \<Rightarrow> val list \<Rightarrow> val list \<Rightarrow> 'w \<Rightarrow> 'w Saga \<Rightarrow> 'w Saga" where
  "called_func i params resp w saga =
     saga\<lparr>world := w, trace := trace saga @ [FuncCalled i params (world saga) resp w]\<rparr>"

definition recorded :: "'w obj \<Rightarrow> val list \<Rightarrow> 'w Saga \<Rightarrow> 'w Saga" where
  "recorded cv resp saga =
     saga\<lparr>toCompensate := toCompensate saga @ [cv],
          returnedValuesFromFunc := returnedValuesFromFunc saga @ [resp]\<rparr>"

definition execStep :: "nat \<Rightarrow> 'w Saga \<Rightarrow> (unit, 'w) outcome" where
  "execStep i saga =
     (if aborted saga then Ok () saga
      else if \<not> i < length (steps saga) then Panic IndexPanic saga
      else
       (case appendLog (newLog saga LogTypeSagaStepExec (Some i)
                          (Some (Name (steps saga ! i)))) saga of
          Panic p s1 \<Rightarrow> Panic p s1
        | Ok u s1 \<Rightarrow>
           (let f = Func (steps s1 ! i);
                compensate = CompensateFunc (steps s1 ! i);
                params = [VContext]
            in
             (case getFuncValue f of
                Inl p \<Rightarrow> Panic p s1
              | Inr fv \<Rightarrow>
                 (case Call fv params (world s1) of
                    Inl p \<Rightarrow> Panic p s1
                  | Inr (resp, w) \<Rightarrow>
                     (case getFuncValue compensate of
                        Inl p \<Rightarrow> Panic p (called_func i params resp w s1)
                      | Inr cv \<Rightarrow>
                         (case isReturnError resp of
                            Inl p \<Rightarrow>
                              Panic p (recorded cv resp (called_func i params resp w s1))
                          | Inr None \<Rightarrow>
                              Ok () (recorded cv resp (called_func i params resp w s1))
                          | Inr (Some e) \<Rightarrow>
                              abort ((recorded cv resp (called_func i params resp w s1))
                                       \<lparr>err := Some e\<rparr>))))))))"

text \<open>
  The loop of \<open>Play\<close>, \<open>for i := 0; i < len(saga.steps); i++\<close>, from \<open>i\<close> on. It ends
  because no operation changes \<open>saga.steps\<close>.
\<close>

function playLoop :: "nat \<Rightarrow> 'w Saga \<Rightarrow> (unit, 'w) outcome" where
  "playLoop i saga =
     (if i < length (steps saga) then
        (case execStep i saga of
           Panic p s1 \<Rightarrow> Panic p s1
         | Ok u s1 \<Rightarrow> playLoop (i + 1) s1)
      else Ok () saga)"
  by pat_completeness auto
termination
proof (relation "measure (\<lambda>(i, s). length (steps s) - i)")
  show "wf (measure (\<lambda>(i, s :: 'w Saga). length (steps s) - i))"
    by simp
next
  fix i :: nat and saga s1 :: "'w Saga" and u :: unit
  assume less: "i < length (steps saga)" and run: "execStep i saga = Ok u s1"
  have C: "steps (final (compensateStep j s)) = steps s" for j and s :: "'w Saga"
    by (auto simp: compensateStep_def called_compensate_def appendLog_def logged_def Let_def
        split: outcome.splits sum.splits prod.splits option.splits)
  have L: "steps (final (compensateLoop k s)) = steps s" for k and s :: "'w Saga"
  proof (induction k arbitrary: s)
    case 0
    show ?case by simp
  next
    case (Suc k)
    show ?case
    proof (cases "compensateStep k s")
      case (Ok u s')
      with C [of k s] Suc.IH [of s'] show ?thesis by simp
    next
      case (Panic p s')
      with C [of k s] show ?thesis by simp
    qed
  qed
  have B: "steps (final (abort s)) = steps s" for s :: "'w Saga"
    by (auto simp: abort_def Let_def appendLog_def logged_def L
        split: outcome.splits option.splits)
  have "steps (final (execStep i saga)) = steps saga"
    by (auto simp: execStep_def called_func_def recorded_def appendLog_def logged_def Let_def B
        split: outcome.splits sum.splits prod.splits option.splits)
  with run have "steps s1 = steps saga"
    by simp
  with less show "((i + 1, s1), (i, saga)) \<in> measure (\<lambda>(i, s). length (steps s) - i)"
    by simp
qed

declare playLoop.simps [simp del]

definition Play :: "'w Saga \<Rightarrow> (Result, 'w) outcome" where
  "Play saga =
     (case appendLog (newLog saga LogTypeStartSaga None None) saga of
        Panic p s1 \<Rightarrow> Panic p s1
      | Ok u s1 \<Rightarrow>
         (case playLoop 0 s1 of
            Panic p s2 \<Rightarrow> Panic p s2
          | Ok u s2 \<Rightarrow>
             (case appendLog (newLog s2 LogTypeSagaComplete None None) s2 of
                Panic p s3 \<Rightarrow> Panic p s3
              | Ok u s3 \<Rightarrow> Ok \<lparr>Err = err s3\<rparr> s3)))"

subsection \<open>What a run shows\<close>

text \<open>
  Read off a trace: the types of the log entries handed to \<open>AppendLog\<close>, the calls of
  forward and compensating functions, the argument lists of the forward calls, and the
  errors that \<open>AppendLog\<close> returned.
\<close>

datatype call = Forward nat | Compensation nat

definition logTypes :: "'w event list \<Rightarrow> LogType list" where
  "logTypes tr =
     concat (map (\<lambda>ev. case ev of Appended l e \<Rightarrow> [Type l] | _ \<Rightarrow> []) tr)"

definition calls :: "'w event list \<Rightarrow> call list" where
  "calls tr =
     concat (map (\<lambda>ev. case ev of Appended l e \<Rightarrow> []
                        | FuncCalled i ps w rs w' \<Rightarrow> [Forward i]
                        | CompensateCalled i ps w rs w' \<Rightarrow> [Compensation i]) tr)"

definition forwardArgs :: "'w event list \<Rightarrow> val list list" where
  "forwardArgs tr =
     concat (map (\<lambda>ev. case ev of FuncCalled i ps w rs w' \<Rightarrow> [ps] | _ \<Rightarrow> []) tr)"

definition failedAppends :: "'w event list \<Rightarrow> error list" where
  "failedAppends tr =
     concat (map (\<lambda>ev. case ev of Appended l (Some e) \<Rightarrow> [e] | _ \<Rightarrow> []) tr)"

text \<open>What \<open>isReturnError\<close> makes of the results of each forward call of a trace.\<close>

definition forwardErrors :: "'w event list \<Rightarrow> (panic + error option) list" where
  "forwardErrors tr =
     concat (map (\<lambda>ev. case ev of FuncCalled i ps w rs w' \<Rightarrow> [isReturnError rs]
                        | _ \<Rightarrow> []) tr)"

subsection \<open>Conditions on a saga and its steps\<close>

text \<open>A saga as \<open>NewSaga\<close> leaves it, whatever steps were added since.\<close>

definition fresh :: "'w Saga \<Rightarrow> bool" where
  "fresh saga \<longleftrightarrow>
     \<not> aborted saga \<and> err saga = None \<and> toCompensate saga = [] \<and>
     returnedValuesFromFunc saga = []"

text \<open>The log store accepts every entry.\<close>

definition storeWorks :: "'w Saga \<Rightarrow> bool" where
  "storeWorks saga \<longleftrightarrow> (\<forall>l w. fst (logStore saga l w) = None)"

text \<open>What \<open>getFuncValue\<close> lets through: a function whose first parameter is the context.\<close>

definition accepted :: "'w obj \<Rightarrow> bool" where
  "accepted x \<longleftrightarrow> isFunc x \<and> ins x \<noteq> [] \<and> ins x ! 0 = TContext"

text \<open>
  The forward function of a step can be called with the context alone; it returns no
  value at all.
\<close>

definition forwardValid :: "'w Step \<Rightarrow> bool" where
  "forwardValid st \<longleftrightarrow> isFunc (Func st) \<and> ins (Func st) = [TContext]"

definition returnsNothing :: "'w Step \<Rightarrow> bool" where
  "returnsNothing st \<longleftrightarrow> (\<forall>w. fst (body (Func st) [VContext] w) = [])"

subsection \<open>The states between the calls\<close>

text \<open>
  What the forward function of step \<open>i\<close> returns when \<open>execStep i\<close> calls it, and the saga
  once \<open>execStep i\<close> has recorded the call.
\<close>

definition execLog :: "nat \<Rightarrow> 'w Saga \<Rightarrow> Log" where
  "execLog i saga = newLog saga LogTypeSagaStepExec (Some i) (Some (Name (steps saga ! i)))"

definition forwardResult :: "nat \<Rightarrow> 'w Saga \<Rightarrow> val list" where
  "forwardResult i saga =
     fst (body (Func (steps saga ! i)) [VContext] (world (logged (execLog i saga) saga)))"

definition afterForward :: "nat \<Rightarrow> 'w Saga \<Rightarrow> 'w Saga" where
  "afterForward i saga =
     recorded (CompensateFunc (steps saga ! i)) (forwardResult i saga)
       (called_func i [VContext] (forwardResult i saga)
          (snd (body (Func (steps saga ! i)) [VContext]
                  (world (logged (execLog i saga) saga))))
          (logged (execLog i saga) saga))"

text \<open>
  The saga once \<open>Play\<close> has logged StartSaga, the saga when step \<open>i\<close> begins after the
  steps before it have run without an error, and the saga once SagaComplete is logged.
\<close>

definition started :: "'w Saga \<Rightarrow> 'w Saga" where
  "started saga = logged (newLog saga LogTypeStartSaga None None) saga"

definition beforeStep :: "nat \<Rightarrow> 'w Saga \<Rightarrow> 'w Saga" where
  "beforeStep i saga = fold afterForward [0 ..< i] (started saga)"

definition completed :: "'w Saga \<Rightarrow> 'w Saga" where
  "completed saga = logged (newLog saga LogTypeSagaComplete None None) saga"

subsection \<open>Sagas to run\<close>

text \<open>
  A log store that accepts every entry and one that refuses the entries of one type,
  and the functions of the repository's tests: the world counts the calls.
\<close>

definition acceptingStore :: "Log \<Rightarrow> nat \<Rightarrow> error option \<times> nat" where
  "acceptingStore l w = (None, w)"

definition refusing :: "LogType \<Rightarrow> Log \<Rightarrow> nat \<Rightarrow> error option \<times> nat" where
  "refusing t l w = (if Type l = t then Some ''store is down'' else None, w)"

definition mockOk :: "nat obj" where
  "mockOk = ObjFunc [TContext] (\<lambda>ps w. ([VError None], Suc w))"

definition mockErr :: "error \<Rightarrow> nat obj" where
  "mockErr m = ObjFunc [TContext] (\<lambda>ps w. ([VError (Some m)], Suc w))"

definition mockSilent :: "nat obj" where
  "mockSilent = ObjFunc [TContext] (\<lambda>ps w. ([], Suc w))"

definition helloErr :: "nat obj" where
  "helloErr = ObjFunc [TContext] (\<lambda>ps w. ([VString ''hello'', VError (Some ''some error'')], Suc w))"

definition undoHello :: "nat obj" where
  "undoHello = ObjFunc [TContext, TString] (\<lambda>ps w. ([VError None], Suc w))"

definition helloOk :: "nat obj" where
  "helloOk = ObjFunc [TContext] (\<lambda>ps w. ([VString ''hello'', VError None], Suc w))"

definition sevenErr :: "nat obj" where
  "sevenErr = ObjFunc [TContext] (\<lambda>ps w. ([VInt 7, VError (Some ''some error'')], Suc w))"

definition undoSeven :: "nat obj" where
  "undoSeven = ObjFunc [TContext, TInt] (\<lambda>ps w. ([VError None], w + 10))"

definition newStep :: "string \<Rightarrow> nat obj \<Rightarrow> nat obj \<Rightarrow> nat Step" where
  "newStep n f c = \<lparr>Name = n, Func = f, CompensateFunc = c, Options = None\<rparr>"

definition sagaWith :: "(Log \<Rightarrow> nat \<Rightarrow> error option \<times> nat) \<Rightarrow> nat Step list \<Rightarrow> nat Saga" where
  "sagaWith store sts = fold AddStep sts (NewSaga ''abcdefghij'' ''saga'' store 0)"

definition sagaOf :: "nat Step list \<Rightarrow> nat Saga" where
  "sagaOf sts = sagaWith acceptingStore sts"

subsection \<open>Invariants of a run\<close>

text \<open>Every forward call so far had its arguments in \<open>B\<close> or was given the context alone.\<close>

definition argsWithin :: "val list set \<Rightarrow> 'w Saga \<Rightarrow> bool" where
  "argsWithin B s \<longleftrightarrow> set (forwardArgs (trace s)) \<subseteq> insert [VContext] B"

text \<open>
  A panic is the store's: the last event is an \<open>AppendLog\<close> that returned an error, the
  panic carries that error, and no \<open>AppendLog\<close> before it returned one. A failure of the
  store is fatal for an outcome when it has seen no failed \<open>AppendLog\<close>, or is such a
  panic.
\<close>

definition stoppedByStore :: "panic \<Rightarrow> 'w event list \<Rightarrow> bool" where
  "stoppedByStore p tr \<longleftrightarrow>
     tr \<noteq> [] \<and> (case last tr of Appended l (Some e) \<Rightarrow> p = LogPanic e | _ \<Rightarrow> False) \<and>
     failedAppends (butlast tr) = []"

definition storeFailureIsFatal :: "('a, 'w) outcome \<Rightarrow> bool" where
  "storeFailureIsFatal out \<longleftrightarrow>
     (case out of
        Ok r s' \<Rightarrow> failedAppends (trace s') = []
      | Panic p s' \<Rightarrow> failedAppends (trace s') = [] \<or> stoppedByStore p (trace s'))"

text \<open>
  The round trip, read off a trace. A call in the trace is genuine when it ran the
  function that the step of its number registers: its results and the world it left are
  those of that function's body on its arguments and the world it found. The outputs of
  step \<open>i\<close> are delivered back when a call of the compensating function of step \<open>i\<close>
  finds exactly one forward call of step \<open>i\<close> in the trace and has as arguments the
  context followed by what that call returned, without the last value.
\<close>

definition forwardResults :: "nat \<Rightarrow> 'w event list \<Rightarrow> val list list" where
  "forwardResults i tr =
     concat (map (\<lambda>ev. case ev of
                          FuncCalled j ps w rs w' \<Rightarrow> (if j = i then [rs] else [])
                        | _ \<Rightarrow> []) tr)"

definition genuine :: "'w Step list \<Rightarrow> 'w event \<Rightarrow> bool" where
  "genuine sts ev \<longleftrightarrow>
     (case ev of
        Appended l e \<Rightarrow> True
      | FuncCalled i ps w rs w' \<Rightarrow>
          i < length sts \<and> isFunc (Func (sts ! i)) \<and> (rs, w') = body (Func (sts ! i)) ps w
      | CompensateCalled i ps w rs w' \<Rightarrow>
          i < length sts \<and> isFunc (CompensateFunc (sts ! i)) \<and>
          (rs, w') = body (CompensateFunc (sts ! i)) ps w)"

definition deliveredBack :: "'w event list \<Rightarrow> 'w event \<Rightarrow> bool" where
  "deliveredBack tr ev \<longleftrightarrow>
     (case ev of
        CompensateCalled i ps w rs w' \<Rightarrow>
          (case forwardResults i tr of [frs] \<Rightarrow> ps = VContext # butlast frs | _ \<Rightarrow> False)
      | _ \<Rightarrow> True)"

definition roundTrip :: "'w Step list \<Rightarrow> 'w event list \<Rightarrow> bool" where
  "roundTrip sts tr \<longleftrightarrow> list_all (\<lambda>ev. genuine sts ev \<and> deliveredBack tr ev) tr"

text \<open>
  The execution record matches a trace when entry \<open>j\<close> is what the one forward call of
  step \<open>j\<close> returned, every call is genuine and every compensating call took its
  arguments from the record; and the saga holds, for each entry, the compensating
  function of the step of that number.
\<close>

definition fromRecord :: "val list list \<Rightarrow> 'w event \<Rightarrow> bool" where
  "fromRecord rv ev \<longleftrightarrow>
     (case ev of
        CompensateCalled i ps w rs w' \<Rightarrow> i < length rv \<and> ps = VContext # butlast (rv ! i)
      | _ \<Rightarrow> True)"

definition matches :: "'w Step list \<Rightarrow> val list list \<Rightarrow> 'w event list \<Rightarrow> bool" where
  "matches sts rv tr \<longleftrightarrow>
     (\<forall>j. forwardResults j tr = (if j < length rv then [rv ! j] else [])) \<and>
     list_all (\<lambda>ev. genuine sts ev \<and> fromRecord rv ev) tr"

definition recordMatches :: "'w Step list \<Rightarrow> 'w Saga \<Rightarrow> bool" where
  "recordMatches sts s \<longleftrightarrow>
     steps s = sts \<and> matches sts (returnedValuesFromFunc s) (trace s) \<and>
     length (toCompensate s) = length (returnedValuesFromFunc s) \<and>
     (\<forall>m < length (toCompensate s). toCompensate s ! m = CompensateFunc (sts ! m))"

text \<open>What \<open>execStep\<close> keeps when the record has one entry per forward call.\<close>

definition keepsRoundTrip :: "'w Step list \<Rightarrow> nat \<Rightarrow> (unit, 'w) outcome \<Rightarrow> bool" where
  "keepsRoundTrip sts n out \<longleftrightarrow>
     (case out of
        Ok u s' \<Rightarrow>
          recordMatches sts s' \<and> (\<not> aborted s' \<longrightarrow> length (returnedValuesFromFunc s') = n)
      | Panic p s' \<Rightarrow> roundTrip sts (trace s'))"

text \<open>
  Replaying a trace from a world: each \<open>AppendLog\<close> returned what the store returns in
  the world reached so far and moves on to the world the store leaves, and each call found
  the world reached so far and moves on to the world it left. The result is the world at
  the end, if the trace is such an account without gaps.
\<close>

fun replay :: "(Log \<Rightarrow> 'w \<Rightarrow> error option \<times> 'w) \<Rightarrow> 'w \<Rightarrow> 'w event list \<Rightarrow> 'w option" where
  "replay store w [] = Some w"
| "replay store w (Appended l e # tr) =
     (if e = fst (store l w) then replay store (snd (store l w)) tr else None)"
| "replay store w (FuncCalled i ps wb rs wa # tr) =
     (if wb = w then replay store wa tr else None)"
| "replay store w (CompensateCalled i ps wb rs wa # tr) =
     (if wb = w then replay store wa tr else None)"

section \<open>Basic facts\<close>

lemma fold_append_nth:
  "n \<le> length ret \<Longrightarrow> fold (\<lambda>i vs. vs @ [ret ! i]) [0 ..< n] vs = vs @ take n ret"
  by (induction n) (simp_all add: take_Suc_conv_app_nth)

lemma addParams_eq: "addParams vs ret = vs @ butlast ret"
proof (cases "length ret > 1")
  case True
  then show ?thesis
    by (simp add: addParams_def fold_append_nth butlast_conv_take)
next
  case False
  then have "butlast ret = []"
    by (cases ret) auto
  with False show ?thesis
    by (simp add: addParams_def)
qed

lemma logTypes_simps [simp]:
  "logTypes [] = []"
  "logTypes (tr @ tr') = logTypes tr @ logTypes tr'"
  "logTypes (Appended l e # tr) = Type l # logTypes tr"
  "logTypes (FuncCalled i ps w rs w' # tr) = logTypes tr"
  "logTypes (CompensateCalled i ps w rs w' # tr) = logTypes tr"
  by (simp_all add: logTypes_def)

lemma calls_simps [simp]:
  "calls [] = []"
  "calls (tr @ tr') = calls tr @ calls tr'"
  "calls (Appended l e # tr) = calls tr"
  "calls (FuncCalled i ps w rs w' # tr) = Forward i # calls tr"
  "calls (CompensateCalled i ps w rs w' # tr) = Compensation i # calls tr"
  by (simp_all add: calls_def)

lemma forwardArgs_simps [simp]:
  "forwardArgs [] = []"
  "forwardArgs (tr @ tr') = forwardArgs tr @ forwardArgs tr'"
  "forwardArgs (Appended l e # tr) = forwardArgs tr"
  "forwardArgs (FuncCalled i ps w rs w' # tr) = ps # forwardArgs tr"
  "forwardArgs (CompensateCalled i ps w rs w' # tr) = forwardArgs tr"
  by (simp_all add: forwardArgs_def)

lemma failedAppends_simps [simp]:
  "failedAppends [] = []"
  "failedAppends (tr @ tr') = failedAppends tr @ failedAppends tr'"
  "failedAppends (Appended l None # tr) = failedAppends tr"
  "failedAppends (Appended l (Some e) # tr) = e # failedAppends tr"
  "failedAppends (FuncCalled i ps w rs w' # tr) = failedAppends tr"
  "failedAppends (CompensateCalled i ps w rs w' # tr) = failedAppends tr"
  by (simp_all add: failedAppends_def)

lemma getFuncValue_accepted: "accepted x \<Longrightarrow> getFuncValue x = Inr x"
  by (auto simp: accepted_def getFuncValue_def)

lemma forwardValid_accepted: "forwardValid st \<Longrightarrow> accepted (Func st)"
  by (simp add: forwardValid_def accepted_def)

lemma appendLog_works:
  "storeWorks s \<Longrightarrow> appendLog l s = Ok () (logged l s)"
  by (simp add: appendLog_def storeWorks_def checkErr_def)

lemma logged_fields [simp]:
  "world (logged l s) = snd (logStore s l (world s))"
  "steps (logged l s) = steps s"
  "logStore (logged l s) = logStore s"
  "aborted (logged l s) = aborted s"
  "err (logged l s) = err s"
  "toCompensate (logged l s) = toCompensate s"
  "returnedValuesFromFunc (logged l s) = returnedValuesFromFunc s"
  "ExecutionID (logged l s) = ExecutionID s"
  "SagaName (logged l s) = SagaName s"
  by (simp_all add: logged_def)

lemma logged_trace [simp]:
  "trace (logged l s) = trace s @ [Appended l (fst (logStore s l (world s)))]"
  by (simp add: logged_def)

lemma storeWorks_logged [simp]: "storeWorks (logged l s) = storeWorks s"
  by (simp add: storeWorks_def)

lemma called_func_fields [simp]:
  "steps (called_func i ps rs w s) = steps s"
  "logStore (called_func i ps rs w s) = logStore s"
  "aborted (called_func i ps rs w s) = aborted s"
  "err (called_func i ps rs w s) = err s"
  "toCompensate (called_func i ps rs w s) = toCompensate s"
  "returnedValuesFromFunc (called_func i ps rs w s) = returnedValuesFromFunc s"
  "world (called_func i ps rs w s) = w"
  "trace (called_func i ps rs w s) = trace s @ [FuncCalled i ps (world s) rs w]"
  by (simp_all add: called_func_def)

lemma called_compensate_fields [simp]:
  "steps (called_compensate i ps rs w s) = steps s"
  "logStore (called_compensate i ps rs w s) = logStore s"
  "aborted (called_compensate i ps rs w s) = aborted s"
  "err (called_compensate i ps rs w s) = err s"
  "toCompensate (called_compensate i ps rs w s) = toCompensate s"
  "returnedValuesFromFunc (called_compensate i ps rs w s) = returnedValuesFromFunc s"
  "world (called_compensate i ps rs w s) = w"
  "trace (called_compensate i ps rs w s) = trace s @ [CompensateCalled i ps (world s) rs w]"
  by (simp_all add: called_compensate_def)

lemma recorded_fields [simp]:
  "steps (recorded cv resp s) = steps s"
  "logStore (recorded cv resp s) = logStore s"
  "aborted (recorded cv resp s) = aborted s"
  "err (recorded cv resp s) = err s"
  "toCompensate (recorded cv resp s) = toCompensate s @ [cv]"
  "returnedValuesFromFunc (recorded cv resp s) = returnedValuesFromFunc s @ [resp]"
  "world (recorded cv resp s) = world s"
  "trace (recorded cv resp s) = trace s"
  by (simp_all add: recorded_def)



lemma execStep_run:
  assumes "\<not> aborted s" "i < length (steps s)" "storeWorks s"
    "forwardValid (steps s ! i)" "accepted (CompensateFunc (steps s ! i))"
  shows "execStep i s =
     (case isReturnError (forwardResult i s) of
        Inl p \<Rightarrow> Panic p (afterForward i s)
      | Inr None \<Rightarrow> Ok () (afterForward i s)
      | Inr (Some e) \<Rightarrow> abort ((afterForward i s)\<lparr>err := Some e\<rparr>))"
proof -
  have "Call (Func (steps s ! i)) [VContext] w = Inr (body (Func (steps s ! i)) [VContext] w)" for w
    using assms(4) by (simp add: Call_def forwardValid_def)
  with assms show ?thesis
    by (simp add: execStep_def appendLog_works getFuncValue_accepted forwardValid_accepted
        Let_def forwardResult_def afterForward_def execLog_def case_prod_beta
        split: sum.splits option.splits)
qed

lemma afterForward_fields [simp]:
  "steps (afterForward i s) = steps s"
  "logStore (afterForward i s) = logStore s"
  "aborted (afterForward i s) = aborted s"
  "err (afterForward i s) = err s"
  "toCompensate (afterForward i s) = toCompensate s @ [CompensateFunc (steps s ! i)]"
  "returnedValuesFromFunc (afterForward i s) = returnedValuesFromFunc s @ [forwardResult i s]"
  "ExecutionID (afterForward i s) = ExecutionID s"
  "SagaName (afterForward i s) = SagaName s"
  by (simp_all add: afterForward_def recorded_def called_func_def)

lemma afterForward_trace:
  "trace (afterForward i s) =
     trace s @ [Appended (execLog i s) (fst (logStore s (execLog i s) (world s))),
                FuncCalled i [VContext] (world (logged (execLog i s) s))
                  (forwardResult i s) (world (afterForward i s))]"
  by (simp add: afterForward_def recorded_def called_func_def)

lemma fold_AddStep: "fold AddStep sts s = s\<lparr>steps := steps s @ sts\<rparr>"
  by (induction sts arbitrary: s) (simp_all add: AddStep_def)

lemma sagaOf_fields [simp]:
  "steps (sagaOf sts) = sts"
  "aborted (sagaOf sts) = False"
  "err (sagaOf sts) = None"
  "toCompensate (sagaOf sts) = []"
  "returnedValuesFromFunc (sagaOf sts) = []"
  "logStore (sagaOf sts) = acceptingStore"
  "trace (sagaOf sts) = []"
  "world (sagaOf sts) = 0"
  by (simp_all add: sagaOf_def sagaWith_def fold_AddStep NewSaga_def)

lemma playLoop_aborted: "aborted s \<Longrightarrow> playLoop i s = Ok () s"
proof (induction i s rule: playLoop.induct)
  case (1 i saga)
  then show ?case
    by (subst playLoop.simps) (simp add: execStep_def)
qed

subsection \<open>Forward calls get the context alone\<close>

lemma argsWithin_compensateStep:
  "argsWithin B s \<Longrightarrow> argsWithin B (final (compensateStep i s))"
  by (auto simp: argsWithin_def compensateStep_def appendLog_def logged_def Let_def
      called_compensate_def
      split: option.splits sum.splits prod.splits)

lemma argsWithin_compensateLoop:
  "argsWithin B s \<Longrightarrow> argsWithin B (final (compensateLoop k s))"
proof (induction k arbitrary: s)
  case 0
  then show ?case by simp
next
  case (Suc k)
  from Suc.prems have "argsWithin B (final (compensateStep k s))"
    by (rule argsWithin_compensateStep)
  with Suc.IH show ?case
    by (cases "compensateStep k s") simp_all
qed

lemma argsWithin_abort: "argsWithin B s \<Longrightarrow> argsWithin B (final (abort s))"
proof -
  assume a: "argsWithin B s"
  have "argsWithin B ((logged l s)\<lparr>aborted := True\<rparr>)" for l
    using a by (simp add: argsWithin_def logged_def)
  then have "argsWithin B (final (compensateLoop k ((logged l s)\<lparr>aborted := True\<rparr>)))" for l k
    by (rule argsWithin_compensateLoop)
  moreover have "argsWithin B (logged l s)" for l
    using a by (simp add: argsWithin_def logged_def)
  ultimately show ?thesis
    by (simp add: abort_def appendLog_def Let_def split: option.splits)
qed

lemma argsWithin_execStep: "argsWithin B s \<Longrightarrow> argsWithin B (final (execStep i s))"
proof -
  assume a: "argsWithin B s"
  have "argsWithin B (final (abort ((recorded cv resp (called_func i [VContext] resp w (logged l s)))\<lparr>err := Some e\<rparr>)))"
    for cv resp w l e
    using a by (intro argsWithin_abort) (simp add: argsWithin_def logged_def recorded_def called_func_def)
  with a show ?thesis
    by (auto simp: execStep_def appendLog_def Let_def argsWithin_def logged_def recorded_def called_func_def
      split: option.splits sum.splits prod.splits)
qed

lemma argsWithin_playLoop: "argsWithin B s \<Longrightarrow> argsWithin B (final (playLoop i s))"
proof (induction i s rule: playLoop.induct)
  case (1 i saga)
  from "1.prems" have "argsWithin B (final (execStep i saga))"
    by (rule argsWithin_execStep)
  with 1 show ?case
    by (subst playLoop.simps) (cases "execStep i saga"; simp)
qed

lemma argsWithin_Play: "argsWithin B s \<Longrightarrow> argsWithin B (final (Play s))"
proof -
  assume a: "argsWithin B s"
  define s1 where "s1 = logged (newLog s LogTypeStartSaga None None) s"
  have l: "argsWithin B s1"
    using a by (simp add: argsWithin_def logged_def s1_def)
  then have p: "argsWithin B (final (playLoop 0 s1))"
    by (rule argsWithin_playLoop)
  show ?thesis
  proof (cases "playLoop 0 s1")
    case (Ok u s2)
    with p have "argsWithin B (logged l' s2)" for l'
      by (simp add: argsWithin_def logged_def)
    with Ok l show ?thesis
      by (simp add: Play_def appendLog_def s1_def [symmetric] split: option.splits)
  next
    case (Panic q s2)
    with p l show ?thesis
      by (simp add: Play_def appendLog_def s1_def [symmetric] split: option.splits)
  qed
qed

lemmas run_defs = Play_def playLoop.simps execStep_def abort_def compensateStep_def
  appendLog_def logged_def checkErr_def newLog_def getFuncValue_def Call_def isReturnError_def
  IsNil_def addParams_def called_func_def called_compensate_def recorded_def
  sagaWith_def sagaOf_def NewSaga_def AddStep_def newStep_def Let_def

subsection \<open>A failure of the log store ends the run\<close>

lemma storeFailureIsFatal_simps [simp]:
  "storeFailureIsFatal (Ok r s') \<longleftrightarrow> failedAppends (trace s') = []"
  "storeFailureIsFatal (Panic p s') \<longleftrightarrow>
     failedAppends (trace s') = [] \<or> stoppedByStore p (trace s')"
  by (simp_all add: storeFailureIsFatal_def)

lemma stoppedByStore_snoc [simp]:
  "stoppedByStore p (tr @ [Appended l (Some e)]) \<longleftrightarrow> p = LogPanic e \<and> failedAppends tr = []"
  by (simp add: stoppedByStore_def)

lemma fatal_appendLog:
  "failedAppends (trace s) = [] \<Longrightarrow> storeFailureIsFatal (appendLog l s)"
  by (simp add: appendLog_def checkErr_def logged_def split: option.splits)

lemma appendLog_Ok: "appendLog l s = Ok u s1 \<Longrightarrow> s1 = logged l s \<and> fst (logStore s l (world s)) = None"
  by (simp add: appendLog_def checkErr_def split: option.splits)

lemma fatal_compensateStep:
  "failedAppends (trace s) = [] \<Longrightarrow> storeFailureIsFatal (compensateStep i s)"
  by (auto simp: compensateStep_def appendLog_def logged_def Let_def checkErr_def
      called_compensate_def
      split: option.splits sum.splits prod.splits)

lemma fatal_compensateLoop:
  "failedAppends (trace s) = [] \<Longrightarrow> storeFailureIsFatal (compensateLoop k s)"
proof (induction k arbitrary: s)
  case 0
  then show ?case by simp
next
  case (Suc k)
  from Suc.prems have "storeFailureIsFatal (compensateStep k s)"
    by (rule fatal_compensateStep)
  with Suc.IH show ?case
    by (cases "compensateStep k s") simp_all
qed

lemma fatal_abort:
  assumes "failedAppends (trace s) = []"
  shows "storeFailureIsFatal (abort s)"
proof (cases "fst (logStore s (newLog s LogTypeSagaAbort (Some (length (toCompensate s))) None) (world s))")
  case None
  with assms have "failedAppends (trace ((logged (newLog s LogTypeSagaAbort (Some (length (toCompensate s))) None) s)\<lparr>aborted := True\<rparr>)) = []"
    by (simp add: logged_def)
  then have "storeFailureIsFatal (compensateLoop (length (toCompensate s)) ((logged (newLog s LogTypeSagaAbort (Some (length (toCompensate s))) None) s)\<lparr>aborted := True\<rparr>))"
    by (rule fatal_compensateLoop)
  with None show ?thesis
    by (simp add: abort_def appendLog_def Let_def checkErr_def)
next
  case (Some e)
  with assms show ?thesis
    by (simp add: abort_def appendLog_def Let_def checkErr_def logged_def)
qed

lemma fatal_execStep:
  assumes "failedAppends (trace s) = []"
  shows "storeFailureIsFatal (execStep i s)"
proof -
  have "storeFailureIsFatal (abort ((recorded cv resp (called_func i [VContext] resp w (logged l s)))\<lparr>err := Some e\<rparr>))"
    if "fst (logStore s l (world s)) = None" for cv resp w l e
    using assms that by (intro fatal_abort) (simp add: logged_def recorded_def called_func_def)
  with assms show ?thesis
    by (auto simp: execStep_def appendLog_def Let_def checkErr_def logged_def recorded_def called_func_def
      split: option.splits sum.splits prod.splits)
qed

lemma fatal_playLoop:
  "failedAppends (trace s) = [] \<Longrightarrow> storeFailureIsFatal (playLoop i s)"
proof (induction i s rule: playLoop.induct)
  case (1 i saga)
  from "1.prems" have "storeFailureIsFatal (execStep i saga)"
    by (rule fatal_execStep)
  with 1 show ?case
    by (subst playLoop.simps) (cases "execStep i saga"; simp)
qed

subsection \<open>The execution record and the trace\<close>

lemma Call_Inr: "Call f ps w = Inr (rs, w') \<Longrightarrow> isFunc f \<and> (rs, w') = body f ps w"
  by (simp add: Call_def split: if_splits)

lemma getFuncValue_Inr: "getFuncValue x = Inr y \<Longrightarrow> y = x"
  by (simp add: getFuncValue_def checkErr_def split: if_splits)

lemma forwardResults_simps [simp]:
  "forwardResults j [] = []"
  "forwardResults j (tr @ tr') = forwardResults j tr @ forwardResults j tr'"
  "forwardResults j (Appended l e # tr) = forwardResults j tr"
  "forwardResults j (FuncCalled i ps w rs w' # tr) =
     (if i = j then [rs] else []) @ forwardResults j tr"
  "forwardResults j (CompensateCalled i ps w rs w' # tr) = forwardResults j tr"
  by (simp_all add: forwardResults_def)

lemma fromRecord_simps [simp]:
  "fromRecord rv (Appended l e)"
  "fromRecord rv (FuncCalled i ps w rs w')"
  "fromRecord rv (CompensateCalled i ps w rs w') \<longleftrightarrow>
     i < length rv \<and> ps = VContext # butlast (rv ! i)"
  by (simp_all add: fromRecord_def)

lemma genuine_simps [simp]:
  "genuine sts (Appended l e)"
  "genuine sts (FuncCalled i ps w rs w') \<longleftrightarrow>
     i < length sts \<and> isFunc (Func (sts ! i)) \<and> (rs, w') = body (Func (sts ! i)) ps w"
  "genuine sts (CompensateCalled i ps w rs w') \<longleftrightarrow>
     i < length sts \<and> isFunc (CompensateFunc (sts ! i)) \<and>
     (rs, w') = body (CompensateFunc (sts ! i)) ps w"
  by (simp_all add: genuine_def)

lemma fromRecord_grows: "fromRecord rv ev \<Longrightarrow> fromRecord (rv @ [r]) ev"
  by (cases ev) (simp_all add: nth_append)

lemma matches_roundTrip: "matches sts rv tr \<Longrightarrow> roundTrip sts tr"
proof -
  assume m: "matches sts rv tr"
  have "genuine sts ev \<and> deliveredBack tr ev" if "ev \<in> set tr" for ev
  proof (cases ev)
    case (CompensateCalled i ps w rs w')
    with m that have "i < length rv" and "ps = VContext # butlast (rv ! i)"
      and "genuine sts ev"
      by (auto simp: matches_def list_all_iff)
    moreover from m \<open>i < length rv\<close> have "forwardResults i tr = [rv ! i]"
      by (simp add: matches_def)
    ultimately show ?thesis
      using CompensateCalled by (simp add: deliveredBack_def)
  next
    case (Appended l e)
    then show ?thesis
      by (simp add: deliveredBack_def)
  next
    case (FuncCalled i ps w rs w')
    with m that show ?thesis
      by (auto simp: matches_def list_all_iff deliveredBack_def)
  qed
  then show ?thesis
    by (simp add: roundTrip_def list_all_iff)
qed

lemma recordMatches_roundTrip: "recordMatches sts s \<Longrightarrow> roundTrip sts (trace s)"
  by (auto simp: recordMatches_def intro: matches_roundTrip)

lemma matches_Appended [simp]: "matches sts rv (tr @ [Appended l e]) = matches sts rv tr"
  by (simp add: matches_def)

lemma matches_call:
  "matches sts rv tr \<Longrightarrow> genuine sts (FuncCalled (length rv) ps w resp w') \<Longrightarrow>
   matches sts (rv @ [resp]) (tr @ [Appended l e, FuncCalled (length rv) ps w resp w'])"
  by (auto simp: matches_def nth_append list_all_iff intro: fromRecord_grows)

lemma matches_compensate:
  "matches sts rv tr \<Longrightarrow> i < length rv \<Longrightarrow>
   genuine sts (CompensateCalled i (VContext # butlast (rv ! i)) w rs w') \<Longrightarrow>
   matches sts rv
     (tr @ [Appended l e, CompensateCalled i (VContext # butlast (rv ! i)) w rs w'])"
  by (simp add: matches_def)

lemma recordMatches_logged [simp]: "recordMatches sts (logged l s) = recordMatches sts s"
  by (simp add: recordMatches_def)

lemma recordMatches_compensateStep:
  assumes "recordMatches sts s"
  shows "recordMatches sts (final (compensateStep i s))"
proof (cases "i < length (steps s) \<and> i < length (returnedValuesFromFunc s)")
  case False
  with assms show ?thesis
    by (auto simp: compensateStep_def appendLog_def checkErr_def split: option.splits)
next
  case True
  define l where "l = newLog s LogTypeSagaStepCompensate (Some i) (Some (Name (steps s ! i)))"
  define ps where "ps = VContext # butlast (returnedValuesFromFunc s ! i)"
  from assms True have bound: "toCompensate s ! i = CompensateFunc (sts ! i)"
    and len: "i < length (toCompensate s)" and st: "steps s = sts"
    and m: "matches sts (returnedValuesFromFunc s) (trace s)"
    by (simp_all add: recordMatches_def)
  have called: "recordMatches sts (called_compensate i ps rs w (logged l s))"
    if "Call (toCompensate s ! i) ps (world (logged l s)) = Inr (rs, w)" for rs w
  proof -
    from Call_Inr [OF that] bound True st
    have "genuine sts (CompensateCalled i ps (world (logged l s)) rs w)"
      by simp
    with m True have "matches sts (returnedValuesFromFunc s)
        (trace s @ [Appended l (fst (logStore s l (world s))),
                    CompensateCalled i ps (world (logged l s)) rs w])"
      unfolding ps_def by (intro matches_compensate) simp_all
    with assms show ?thesis
      by (simp add: recordMatches_def)
  qed
  from assms True len called show ?thesis
    by (auto simp: compensateStep_def appendLog_def checkErr_def Let_def addParams_eq
        l_def [symmetric] ps_def [symmetric]
        split: option.splits sum.splits prod.splits)
qed

lemma recordMatches_compensateLoop:
  "recordMatches sts s \<Longrightarrow> recordMatches sts (final (compensateLoop k s))"
proof (induction k arbitrary: s)
  case 0
  then show ?case by simp
next
  case (Suc k)
  from Suc.prems have "recordMatches sts (final (compensateStep k s))"
    by (rule recordMatches_compensateStep)
  with Suc.IH show ?case
    by (cases "compensateStep k s") simp_all
qed

lemma aborted_compensateStep: "aborted (final (compensateStep i s)) = aborted s"
  by (auto simp: compensateStep_def appendLog_def checkErr_def Let_def
      split: option.splits sum.splits prod.splits)

lemma aborted_compensateLoop: "aborted (final (compensateLoop k s)) = aborted s"
proof (induction k arbitrary: s)
  case 0
  show ?case by simp
next
  case (Suc k)
  with aborted_compensateStep [of k s] show ?case
    by (cases "compensateStep k s") simp_all
qed

lemma abort_Ok_aborted: "abort s = Ok u s' \<Longrightarrow> aborted s'"
  using aborted_compensateLoop
    [of "length (toCompensate s)"
      "(logged (newLog s LogTypeSagaAbort (Some (length (toCompensate s))) None) s)\<lparr>aborted := True\<rparr>"]
  by (auto simp: abort_def Let_def appendLog_def checkErr_def split: option.splits)

lemma recordMatches_abort:
  assumes "recordMatches sts s"
  shows "recordMatches sts (final (abort s))"
proof -
  have "recordMatches sts ((logged l s)\<lparr>aborted := True\<rparr>)" for l
    using assms by (simp add: recordMatches_def)
  then have "recordMatches sts (final (compensateLoop k ((logged l s)\<lparr>aborted := True\<rparr>)))"
    for l k
    by (rule recordMatches_compensateLoop)
  moreover have "recordMatches sts (logged l s)" for l
    using assms by simp
  ultimately show ?thesis
    by (simp add: abort_def appendLog_def Let_def split: option.splits)
qed

lemma keepsRoundTrip_simps [simp]:
  "keepsRoundTrip sts n (Ok u s') \<longleftrightarrow>
     recordMatches sts s' \<and> (\<not> aborted s' \<longrightarrow> length (returnedValuesFromFunc s') = n)"
  "keepsRoundTrip sts n (Panic p s') \<longleftrightarrow> roundTrip sts (trace s')"
  by (simp_all add: keepsRoundTrip_def)

lemma keepsRoundTrip_abort:
  assumes "recordMatches sts s"
  shows "keepsRoundTrip sts n (abort s)"
proof (cases "abort s")
  case (Ok u s')
  with recordMatches_abort [OF assms] abort_Ok_aborted [OF Ok] show ?thesis
    by simp
next
  case (Panic p s')
  with recordMatches_roundTrip [OF recordMatches_abort [OF assms]] show ?thesis
    by simp
qed

lemma keepsRoundTrip_execStep:
  assumes "recordMatches sts s" and "\<not> aborted s \<longrightarrow> length (returnedValuesFromFunc s) = i"
  shows "keepsRoundTrip sts (Suc i) (execStep i s)"
proof (cases "aborted s \<or> \<not> i < length (steps s)")
  case True
  with assms recordMatches_roundTrip [OF assms(1)] show ?thesis
    by (auto simp: execStep_def)
next
  case False
  with assms have len: "length (returnedValuesFromFunc s) = i" and i: "i < length (steps s)"
    and na: "\<not> aborted s"
    by simp_all
  from assms(1) have m: "matches sts (returnedValuesFromFunc s) (trace s)"
    and st: "steps s = sts" and lens: "length (toCompensate s) = length (returnedValuesFromFunc s)"
    and bound: "\<forall>m < length (toCompensate s). toCompensate s ! m = CompensateFunc (sts ! m)"
    by (simp_all add: recordMatches_def)
  define l where "l = newLog s LogTypeSagaStepExec (Some i) (Some (Name (steps s ! i)))"
  from m have rt: "roundTrip sts (trace (logged l s))" for l
    by (intro matches_roundTrip [of sts "returnedValuesFromFunc s"]) simp
  have called: "matches sts (returnedValuesFromFunc s @ [resp])
        (trace (called_func i [VContext] resp w (logged l s)))"
    if "Call (Func (steps s ! i)) [VContext] (world (logged l s)) = Inr (resp, w)" for resp w
  proof -
    from Call_Inr [OF that] i st
    have "genuine sts (FuncCalled i [VContext] (world (logged l s)) resp w)"
      by simp
    with m len show ?thesis
      using matches_call [of sts "returnedValuesFromFunc s" "trace s" "[VContext]"
          "world (logged l s)" resp w l "fst (logStore s l (world s))"]
      by simp
  qed
  have rec: "recordMatches sts (recorded (CompensateFunc (steps s ! i)) resp
        (called_func i [VContext] resp w (logged l s)))"
    if "Call (Func (steps s ! i)) [VContext] (world (logged l s)) = Inr (resp, w)" for resp w
  proof -
    have "(toCompensate s @ [CompensateFunc (steps s ! i)]) ! m = CompensateFunc (sts ! m)"
      if "m < Suc (length (toCompensate s))" for m
    proof (cases "m < length (toCompensate s)")
      case True
      with bound show ?thesis
        by (simp add: nth_append)
    next
      case False
      with that have "m = length (toCompensate s)"
        by simp
      with lens len st show ?thesis
        by (simp add: nth_append)
    qed
    with called [OF that] st lens show ?thesis
      by (simp add: recordMatches_def)
  qed
  have ab: "keepsRoundTrip sts (Suc i)
      (abort ((recorded (CompensateFunc (steps s ! i)) resp
                (called_func i [VContext] resp w (logged l s)))\<lparr>err := Some e\<rparr>))"
    if "Call (Func (steps s ! i)) [VContext] (world (logged l s)) = Inr (resp, w)" for resp w e
    using rec [OF that]
    by (intro keepsRoundTrip_abort) (auto simp: recordMatches_def)
  show ?thesis
  proof (cases "appendLog l s")
    case (Panic p s1)
    with na i rt [of l] show ?thesis
      by (auto simp: execStep_def l_def [symmetric] appendLog_def checkErr_def
          split: option.splits)
  next
    case (Ok u s1)
    then have s1: "s1 = logged l s"
      by (simp add: appendLog_def checkErr_def split: option.splits)
    show ?thesis
    proof (cases "getFuncValue (Func (steps s ! i))")
      case (Inl p)
      with na i Ok s1 rt [of l] show ?thesis
        by (simp add: execStep_def l_def [symmetric] Let_def)
    next
      case (Inr fv)
      then have fv: "fv = Func (steps s ! i)"
        by (rule getFuncValue_Inr)
      show ?thesis
      proof (cases "Call (Func (steps s ! i)) [VContext] (world (logged l s))")
        case (Inl p)
        with na i Ok s1 Inr fv rt [of l] show ?thesis
          by (simp add: execStep_def l_def [symmetric] Let_def)
      next
        case call: (Inr r)
        obtain resp w where r: "r = (resp, w)"
          by (cases r)
        note c = call [unfolded r]
        show ?thesis
        proof (cases "getFuncValue (CompensateFunc (steps s ! i))")
          case (Inl p)
          from called [OF c] have "roundTrip sts (trace (called_func i [VContext] resp w (logged l s)))"
            by (rule matches_roundTrip)
          with na i Ok s1 Inr fv c Inl show ?thesis
            by (simp add: execStep_def l_def [symmetric] Let_def)
        next
          case cvr: (Inr cv)
          then have cv: "cv = CompensateFunc (steps s ! i)"
            by (rule getFuncValue_Inr)
          from rec [OF c] have
            "roundTrip sts (trace (recorded (CompensateFunc (steps s ! i)) resp
                (called_func i [VContext] resp w (logged l s))))"
            by (rule recordMatches_roundTrip)
          with na i Ok s1 Inr fv c cvr cv rec [OF c] ab [OF c] len show ?thesis
            by (simp add: execStep_def l_def [symmetric] Let_def
                split: sum.splits option.splits)
        qed
      qed
    qed
  qed
qed

lemma keepsRoundTrip_playLoop:
  "recordMatches sts s \<Longrightarrow> (\<not> aborted s \<longrightarrow> length (returnedValuesFromFunc s) = i) \<Longrightarrow>
   roundTrip sts (trace (final (playLoop i s)))"
proof (induction i s rule: playLoop.induct)
  case (1 i saga)
  from "1.prems" have k: "keepsRoundTrip sts (Suc i) (execStep i saga)"
    by (rule keepsRoundTrip_execStep)
  show ?case
  proof (cases "i < length (steps saga)")
    case True
    show ?thesis
    proof (cases "execStep i saga")
      case (Ok u s1)
      with k "1.IH" [OF True Ok] True show ?thesis
        by (subst playLoop.simps) simp
    next
      case (Panic p s1)
      with k True show ?thesis
        by (subst playLoop.simps) simp
    qed
  next
    case False
    with recordMatches_roundTrip [OF "1.prems"(1)] show ?thesis
      by (subst playLoop.simps) simp
  qed
qed

lemma matches_no_calls: "calls tr = [] \<Longrightarrow> matches sts [] tr"
proof (induction tr)
  case Nil
  show ?case by (simp add: matches_def)
next
  case (Cons ev tr)
  then show ?case
    by (cases ev) (simp_all add: matches_def)
qed

lemma roundTrip_Appended: "roundTrip sts tr \<Longrightarrow> roundTrip sts (tr @ [Appended l e])"
  by (auto simp: roundTrip_def list_all_iff deliveredBack_def split: event.splits)

subsection \<open>A run without errors\<close>

lemma newLog_Type [simp]: "Type (newLog s t n name) = t"
  by (simp add: newLog_def)

lemma storeWorks_afterForward [simp]: "storeWorks (afterForward i s) = storeWorks s"
  by (simp add: storeWorks_def)

lemma afterForward_calls:
  "storeWorks s \<Longrightarrow> calls (trace (afterForward i s)) = calls (trace s) @ [Forward i]"
  "storeWorks s \<Longrightarrow>
   logTypes (trace (afterForward i s)) = logTypes (trace s) @ [LogTypeSagaStepExec]"
  by (simp_all add: afterForward_trace execLog_def)

lemma beforeStep_0 [simp]: "beforeStep 0 s = started s"
  by (simp add: beforeStep_def)

lemma beforeStep_Suc [simp]: "beforeStep (Suc i) s = afterForward i (beforeStep i s)"
  by (simp add: beforeStep_def)

lemma beforeStep_fields [simp]:
  "steps (beforeStep i s) = steps s"
  "logStore (beforeStep i s) = logStore s"
  "aborted (beforeStep i s) = aborted s"
  "err (beforeStep i s) = err s"
  "storeWorks (beforeStep i s) = storeWorks s"
  by (induction i) (simp_all add: started_def)

lemma beforeStep_trace:
  assumes "storeWorks s"
  shows "calls (trace (beforeStep i s)) = calls (trace s) @ map Forward [0 ..< i]"
    and "logTypes (trace (beforeStep i s)) =
           logTypes (trace s) @ LogTypeStartSaga # replicate i LogTypeSagaStepExec"
  using assms
  by (induction i) (simp_all add: started_def afterForward_calls replicate_append_same)

lemma playLoop_done: "length (steps s) \<le> i \<Longrightarrow> playLoop i s = Ok () s"
  by (subst playLoop.simps) simp

lemma execStep_succeeds:
  assumes "\<not> aborted s" and "i < length (steps s)" and "storeWorks s"
    and "forwardValid (steps s ! i)" and "accepted (CompensateFunc (steps s ! i))"
    and "isReturnError (forwardResult i s) = Inr None"
  shows "execStep i s = Ok () (afterForward i s)"
  using assms by (simp add: execStep_run)

lemma playLoop_reaches:
  assumes "\<not> aborted s" and "storeWorks s" and "k \<le> length (steps s)"
    and "\<forall>i < k. forwardValid (steps s ! i) \<and> accepted (CompensateFunc (steps s ! i)) \<and>
           isReturnError (forwardResult i (beforeStep i s)) = Inr None"
  shows "playLoop 0 (started s) = playLoop k (beforeStep k s)"
  using assms(3,4)
proof (induction k)
  case 0
  show ?case by simp
next
  case (Suc k)
  then have "playLoop 0 (started s) = playLoop k (beforeStep k s)"
    by simp
  moreover from Suc.prems assms(1,2)
  have "execStep k (beforeStep k s) = Ok () (afterForward k (beforeStep k s))"
    by (intro execStep_succeeds) simp_all
  moreover from Suc.prems have "k < length (steps (beforeStep k s))"
    by simp
  ultimately show ?case
    by (subst (asm) (2) playLoop.simps) simp
qed

lemma Play_completes:
  assumes "storeWorks s" and "playLoop 0 (started s) = Ok () s2" and "storeWorks s2"
  shows "Play s = Ok \<lparr>Err = err s2\<rparr> (completed s2)"
  using assms by (simp add: Play_def appendLog_works started_def completed_def)

lemma replay_append:
  "replay store w (tr @ tr') =
     (case replay store w tr of None \<Rightarrow> None | Some w' \<Rightarrow> replay store w' tr')"
proof (induction tr arbitrary: w)
  case Nil
  show ?case by simp
next
  case (Cons ev tr)
  then show ?case
    by (cases ev) simp_all
qed

lemma afterForward_world:
  "body (Func (steps s ! i)) [VContext] (world (logged (execLog i s) s)) =
     (forwardResult i s, world (afterForward i s))"
  by (simp add: forwardResult_def afterForward_def)

lemma beforeStep_forwardArgs:
  "forwardArgs (trace (beforeStep i s)) = forwardArgs (trace s) @ replicate i [VContext]"
  by (induction i) (simp_all add: started_def afterForward_trace replicate_append_same)

lemma beforeStep_genuine:
  assumes "list_all (genuine (steps s)) (trace s)" and "k \<le> length (steps s)"
    and "\<forall>i < k. forwardValid (steps s ! i)"
  shows "list_all (genuine (steps s)) (trace (beforeStep k s))"
  using assms(2,3)
proof (induction k)
  case 0
  with assms(1) show ?case
    by (simp add: started_def)
next
  case (Suc k)
  then have "list_all (genuine (steps s)) (trace (beforeStep k s))"
    and "k < length (steps s)" and "isFunc (Func (steps s ! k))"
    by (simp_all add: forwardValid_def)
  then show ?case
    using afterForward_world [of "beforeStep k s" k]
    by (simp add: afterForward_trace)
qed

lemma beforeStep_replay:
  assumes "replay (logStore s) w0 (trace s) = Some (world s)"
  shows "replay (logStore s) w0 (trace (beforeStep k s)) = Some (world (beforeStep k s))"
proof (induction k)
  case 0
  with assms show ?case
    by (simp add: started_def replay_append)
next
  case (Suc k)
  then show ?case
    by (simp add: afterForward_trace replay_append)
qed

lemma forwardErrors_simps [simp]:
  "forwardErrors [] = []"
  "forwardErrors (tr @ tr') = forwardErrors tr @ forwardErrors tr'"
  "forwardErrors (Appended l e # tr) = forwardErrors tr"
  "forwardErrors (FuncCalled i ps w rs w' # tr) = isReturnError rs # forwardErrors tr"
  "forwardErrors (CompensateCalled i ps w rs w' # tr) = forwardErrors tr"
  by (simp_all add: forwardErrors_def)

lemma kept_compensateStep:
  "ev \<in> set (trace s) \<Longrightarrow> ev \<in> set (trace (final (compensateStep i s)))"
  by (auto simp: compensateStep_def called_compensate_def appendLog_def logged_def Let_def
      split: outcome.splits sum.splits prod.splits option.splits)

lemma kept_compensateLoop:
  "ev \<in> set (trace s) \<Longrightarrow> ev \<in> set (trace (final (compensateLoop k s)))"
proof (induction k arbitrary: s)
  case 0
  then show ?case by simp
next
  case (Suc k)
  show ?case
  proof (cases "compensateStep k s")
    case (Ok u s')
    with kept_compensateStep [OF Suc.prems, of k] Suc.IH [of s'] show ?thesis by simp
  next
    case (Panic p s')
    with kept_compensateStep [OF Suc.prems, of k] show ?thesis by simp
  qed
qed

lemma kept_abort: "ev \<in> set (trace s) \<Longrightarrow> ev \<in> set (trace (final (abort s)))"
  by (auto simp: abort_def Let_def appendLog_def logged_def intro!: kept_compensateLoop
      split: outcome.splits option.splits)

lemma kept_execStep: "ev \<in> set (trace s) \<Longrightarrow> ev \<in> set (trace (final (execStep i s)))"
  by (auto simp: execStep_def called_func_def recorded_def appendLog_def logged_def Let_def
      intro!: kept_abort split: outcome.splits sum.splits prod.splits option.splits)

lemma kept_playLoop: "ev \<in> set (trace s) \<Longrightarrow> ev \<in> set (trace (final (playLoop i s)))"
proof (induction i s rule: playLoop.induct)
  case (1 i s)
  show ?case
  proof (cases "i < length (steps s)")
    case False
    with 1(2) show ?thesis
      by (subst playLoop.simps) simp
  next
    case less: True
    show ?thesis
    proof (cases "execStep i s")
      case (Ok u s1)
      with kept_execStep [OF 1(2), of i] have "ev \<in> set (trace s1)"
        by simp
      with 1(1) [OF less Ok] less Ok show ?thesis
        by (subst playLoop.simps) simp
    next
      case (Panic p s1)
      with kept_execStep [OF 1(2), of i] less show ?thesis
        by (subst playLoop.simps) simp
    qed
  qed
qed

lemma kept_Play:
  assumes "storeWorks s" and "ev \<in> set (trace (final (playLoop 0 (started s))))"
  shows "ev \<in> set (trace (final (Play s)))"
proof (cases "playLoop 0 (started s)")
  case (Ok u s2)
  with assms(2) have "ev \<in> set (trace (final (appendLog l s2)))" for l
    by (simp add: appendLog_def logged_def split: option.splits)
  from this [of "newLog s2 LogTypeSagaComplete None None"] Ok assms(1) show ?thesis
    by (cases "appendLog (newLog s2 LogTypeSagaComplete None None) s2")
       (simp_all add: Play_def appendLog_works started_def)
next
  case (Panic p s2)
  with assms show ?thesis
    by (simp add: Play_def appendLog_works started_def)
qed

lemma forward_result_seen:
  assumes "\<not> aborted s" and "storeWorks s" and "k < length (steps s)"
    and "\<forall>i \<le> k. forwardValid (steps s ! i) \<and> accepted (CompensateFunc (steps s ! i))"
    and "\<forall>i < k. isReturnError (forwardResult i (beforeStep i s)) = Inr None"
  shows "isReturnError (forwardResult k (beforeStep k s))
           \<in> set (forwardErrors (trace (final (Play s))))"
proof -
  let ?b = "beforeStep k s"
  let ?ev = "FuncCalled k [VContext] (world (logged (execLog k ?b) ?b))
               (forwardResult k ?b) (world (afterForward k ?b))"
  from assms have reach: "playLoop 0 (started s) = playLoop k ?b"
    by (intro playLoop_reaches) simp_all
  have in_after: "?ev \<in> set (trace (afterForward k ?b))"
    by (simp add: afterForward_trace)
  from assms have "execStep k ?b =
     (case isReturnError (forwardResult k ?b) of
        Inl p \<Rightarrow> Panic p (afterForward k ?b)
      | Inr None \<Rightarrow> Ok () (afterForward k ?b)
      | Inr (Some e) \<Rightarrow> abort ((afterForward k ?b)\<lparr>err := Some e\<rparr>))"
    by (intro execStep_run) simp_all
  with in_after kept_abort [of ?ev "(afterForward k ?b)\<lparr>err := Some e\<rparr>" for e]
  have in_exec: "?ev \<in> set (trace (final (execStep k ?b)))"
    by (simp split: sum.splits option.splits)
  have "?ev \<in> set (trace (final (playLoop k ?b)))"
  proof (cases "execStep k ?b")
    case (Ok u s1)
    with in_exec have "?ev \<in> set (trace s1)"
      by simp
    then have "?ev \<in> set (trace (final (playLoop (k + 1) s1)))"
      by (rule kept_playLoop)
    with Ok assms(3) show ?thesis
      by (subst playLoop.simps) simp
  next
    case (Panic p s1)
    with in_exec assms(3) show ?thesis
      by (subst playLoop.simps) simp
  qed
  with reach assms(2) have "?ev \<in> set (trace (final (Play s)))"
    by (intro kept_Play) simp_all
  then obtain tr tr' where "trace (final (Play s)) = tr @ ?ev # tr'"
    by (auto simp: in_set_conv_decomp)
  then show ?thesis
    by simp
qed

lemma forward_results_nil:
  assumes "\<not> aborted s" and "storeWorks s"
    and "\<forall>i < length (steps s).
           forwardValid (steps s ! i) \<and> accepted (CompensateFunc (steps s ! i))"
    and "set (forwardErrors (trace (final (Play s)))) \<subseteq> {Inr None}"
  shows "k < length (steps s) \<Longrightarrow> isReturnError (forwardResult k (beforeStep k s)) = Inr None"
proof (induction k rule: less_induct)
  case (less k)
  with assms(1,2,3)
  have "isReturnError (forwardResult k (beforeStep k s))
          \<in> set (forwardErrors (trace (final (Play s))))"
    by (intro forward_result_seen) simp_all
  with assms(4) show ?case
    by auto
qed

section \<open>The claims\<close>

text \<open>
  C1. The claim is that a compensating function returning an error does not stop the
  unwind: every bound compensating function is still called and the Result lists the
  compensation errors, from the last step run to the first. The code does otherwise on
  the two steps of the repository's test of failing compensations, where the second step
  fails and both compensating functions return errors: \<open>compensateStep\<close> panics with the
  error of the second step's compensating function. The compensating function of the
  first step is never called, the log ends with the one StepCompensate, and \<open>Play\<close>
  returns no Result, so no list of compensation errors.
\<close>

theorem compensation_error_stops_unwind:
  "\<not> returns (Play (sagaOf [newStep ''first'' mockOk (mockErr ''compensate error 1''), newStep ''second'' (mockErr ''some error'') (mockErr ''compensate error 2'')])) \<and>
   (case Play (sagaOf [newStep ''first'' mockOk (mockErr ''compensate error 1''), newStep ''second'' (mockErr ''some error'') (mockErr ''compensate error 2'')]) of
      Panic p s' \<Rightarrow> p = ErrPanic ''compensate error 2'' | Ok r s' \<Rightarrow> False) \<and>
   calls (trace (final (Play (sagaOf [newStep ''first'' mockOk (mockErr ''compensate error 1''), newStep ''second'' (mockErr ''some error'') (mockErr ''compensate error 2'')])))) = [Forward 0, Forward 1, Compensation 1] \<and>
   Compensation 0 \<notin> set (calls (trace (final (Play (sagaOf [newStep ''first'' mockOk (mockErr ''compensate error 1''), newStep ''second'' (mockErr ''some error'') (mockErr ''compensate error 2'')]))))) \<and>
   logTypes (trace (final (Play (sagaOf [newStep ''first'' mockOk (mockErr ''compensate error 1''), newStep ''second'' (mockErr ''some error'') (mockErr ''compensate error 2'')]))))
     = [LogTypeStartSaga, LogTypeSagaStepExec, LogTypeSagaStepExec, LogTypeSagaAbort,
        LogTypeSagaStepCompensate]"
  by (simp add: run_defs acceptingStore_def mockOk_def mockErr_def)

text \<open>
  C2. The claim is that, when step \<open>i\<close> is the first to fail, the compensating functions
  of steps \<open>i\<close> down to \<open>0\<close> are each called once and the log is StartSaga, StepExec
  \<open>i + 1\<close> times, SagaAbort, StepCompensate \<open>i + 1\<close> times, SagaComplete. The code does
  otherwise when a compensating function returns an error: here step 1 is the first to
  fail and its compensating function returns an error. The run ends in a panic after one
  StepCompensate; step 0 is never compensated and SagaComplete is never logged.
\<close>

theorem failing_compensation_breaks_unwind:
  "calls (trace (final (Play (sagaOf [newStep ''first'' mockOk mockOk, newStep ''second'' (mockErr ''some error'') (mockErr ''undo failed'')])))) = [Forward 0, Forward 1, Compensation 1] \<and>
   logTypes (trace (final (Play (sagaOf [newStep ''first'' mockOk mockOk, newStep ''second'' (mockErr ''some error'') (mockErr ''undo failed'')]))))
     = [LogTypeStartSaga, LogTypeSagaStepExec, LogTypeSagaStepExec, LogTypeSagaAbort,
        LogTypeSagaStepCompensate] \<and>
   \<not> returns (Play (sagaOf [newStep ''first'' mockOk mockOk, newStep ''second'' (mockErr ''some error'') (mockErr ''undo failed'')])) \<and>
   (case Play (sagaOf [newStep ''first'' mockOk mockOk, newStep ''second'' (mockErr ''some error'') (mockErr ''undo failed'')]) of
      Panic p s' \<Rightarrow> p = ErrPanic ''undo failed'' | Ok r s' \<Rightarrow> False)"
  by (simp add: run_defs acceptingStore_def mockOk_def mockErr_def)

text \<open>
  C3. When every forward call of a run returns a nil error, \<open>Play\<close> returns a Result
  with no error. The run calls the forward functions once each, in the order of
  registration, and no compensating function; every call has the context as its only
  argument and is genuine, so its results and the world it leaves are those of the body
  of that step's forward function; the worlds of the trace follow one another without a
  gap up to the world that \<open>Play\<close> leaves; and the log is StartSaga, one StepExec per
  step, SagaComplete. The saga is new, the log store accepts every entry, each forward
  function takes the context alone and each compensating function passes
  \<open>getFuncValue\<close>.
\<close>

theorem all_steps_succeed:
  assumes "fresh s" and "trace s = []" and "storeWorks s"
    and "\<forall>i < length (steps s).
           forwardValid (steps s ! i) \<and> accepted (CompensateFunc (steps s ! i))"
    and "set (forwardErrors (trace (final (Play s)))) \<subseteq> {Inr None}"
  shows "Play s = Ok \<lparr>Err = None\<rparr> (final (Play s)) \<and>
         calls (trace (final (Play s))) = map Forward [0 ..< length (steps s)] \<and>
         forwardArgs (trace (final (Play s))) = replicate (length (steps s)) [VContext] \<and>
         list_all (genuine (steps s)) (trace (final (Play s))) \<and>
         replay (logStore s) (world s) (trace (final (Play s))) = Some (world (final (Play s))) \<and>
         logTypes (trace (final (Play s))) =
           LogTypeStartSaga # replicate (length (steps s)) LogTypeSagaStepExec @
             [LogTypeSagaComplete]"
proof -
  let ?n = "length (steps s)"
  let ?s2 = "beforeStep ?n s"
  from assms have nil:
    "\<forall>i < ?n. forwardValid (steps s ! i) \<and> accepted (CompensateFunc (steps s ! i)) \<and>
       isReturnError (forwardResult i (beforeStep i s)) = Inr None"
    by (simp add: fresh_def forward_results_nil)
  with assms have "playLoop 0 (started s) = playLoop ?n ?s2"
    by (intro playLoop_reaches) (simp_all add: fresh_def)
  then have "playLoop 0 (started s) = Ok () ?s2"
    by (simp add: playLoop_done)
  with assms(3) have "Play s = Ok \<lparr>Err = err ?s2\<rparr> (completed ?s2)"
    by (intro Play_completes) simp_all
  with assms(1) have play: "Play s = Ok \<lparr>Err = None\<rparr> (completed ?s2)"
    by (simp add: fresh_def)
  from assms(2,4) have gen: "list_all (genuine (steps s)) (trace ?s2)"
    by (intro beforeStep_genuine) simp_all
  from assms(2) have rep: "replay (logStore s) (world s) (trace ?s2) = Some (world ?s2)"
    by (intro beforeStep_replay) simp
  from play have "Play s = Ok \<lparr>Err = None\<rparr> (final (Play s))"
    by simp
  moreover from play assms(2,3) have
    "calls (trace (final (Play s))) = map Forward [0 ..< ?n]"
    "logTypes (trace (final (Play s))) =
       LogTypeStartSaga # replicate ?n LogTypeSagaStepExec @ [LogTypeSagaComplete]"
    by (simp_all add: completed_def beforeStep_trace)
  moreover from play assms(2) have
    "forwardArgs (trace (final (Play s))) = replicate ?n [VContext]"
    by (simp add: completed_def beforeStep_forwardArgs)
  moreover from play gen have "list_all (genuine (steps s)) (trace (final (Play s)))"
    by (simp add: completed_def)
  moreover from play rep assms(3) have
    "replay (logStore s) (world s) (trace (final (Play s))) = Some (world (final (Play s)))"
    by (simp add: completed_def replay_append storeWorks_def)
  ultimately show ?thesis
    by simp
qed

theorem all_steps_succeed_witness:
  "fresh (sagaOf [newStep ''first'' mockOk mockOk, newStep ''second'' mockOk mockOk]) \<and> trace (sagaOf [newStep ''first'' mockOk mockOk, newStep ''second'' mockOk mockOk]) = [] \<and> storeWorks (sagaOf [newStep ''first'' mockOk mockOk, newStep ''second'' mockOk mockOk]) \<and>
   forwardErrors (trace (final (Play (sagaOf [newStep ''first'' mockOk mockOk, newStep ''second'' mockOk mockOk])))) = [Inr None, Inr None] \<and>
   Play (sagaOf [newStep ''first'' mockOk mockOk, newStep ''second'' mockOk mockOk]) = Ok \<lparr>Err = None\<rparr> (final (Play (sagaOf [newStep ''first'' mockOk mockOk, newStep ''second'' mockOk mockOk]))) \<and>
   calls (trace (final (Play (sagaOf [newStep ''first'' mockOk mockOk, newStep ''second'' mockOk mockOk])))) = [Forward 0, Forward 1] \<and>
   list_all (genuine (steps (sagaOf [newStep ''first'' mockOk mockOk, newStep ''second'' mockOk mockOk]))) (trace (final (Play (sagaOf [newStep ''first'' mockOk mockOk, newStep ''second'' mockOk mockOk])))) \<and>
   replay (logStore (sagaOf [newStep ''first'' mockOk mockOk, newStep ''second'' mockOk mockOk])) (world (sagaOf [newStep ''first'' mockOk mockOk, newStep ''second'' mockOk mockOk])) (trace (final (Play (sagaOf [newStep ''first'' mockOk mockOk, newStep ''second'' mockOk mockOk]))))
     = Some (world (final (Play (sagaOf [newStep ''first'' mockOk mockOk, newStep ''second'' mockOk mockOk])))) \<and>
   world (final (Play (sagaOf [newStep ''first'' mockOk mockOk, newStep ''second'' mockOk mockOk]))) = 2 \<and>
   [ev \<leftarrow> trace (final (Play (sagaOf [newStep ''first'' mockOk mockOk, newStep ''second'' mockOk mockOk]))). calls [ev] \<noteq> []]
     = [FuncCalled 0 [VContext] 0 [VError None] 1, FuncCalled 1 [VContext] 1 [VError None] 2] \<and>
   logTypes (trace (final (Play (sagaOf [newStep ''first'' mockOk mockOk, newStep ''second'' mockOk mockOk]))))
     = [LogTypeStartSaga, LogTypeSagaStepExec, LogTypeSagaStepExec, LogTypeSagaComplete]"
  using all_steps_succeed [of "sagaOf [newStep ''first'' mockOk mockOk, newStep ''second'' mockOk mockOk]"]
  by (simp add: fresh_def storeWorks_def forwardValid_def accepted_def less_Suc_eq
      forwardErrors_def run_defs acceptingStore_def mockOk_def)

text \<open>
  C4. \<open>AddStep\<close> checks nothing and returns nothing: it appends the step it is given. With
  the string \<open>hello\<close> as forward function the saga has one step afterwards, and the
  mistake shows only when \<open>Play\<close> panics in \<open>getFuncValue\<close>.
\<close>

theorem addStep_accepts_non_func:
  "length (steps (AddStep (newStep ''first'' (ObjString ''hello'') mockOk) (sagaOf []))) = 1 \<and>
   \<not> returns (Play (AddStep (newStep ''first'' (ObjString ''hello'') mockOk) (sagaOf []))) \<and>
   (case Play (AddStep (newStep ''first'' (ObjString ''hello'') mockOk) (sagaOf [])) of
      Panic p s' \<Rightarrow> p = LogPanic ''registered object must be a func'' | Ok r s' \<Rightarrow> False)"
  by (simp add: run_defs acceptingStore_def mockOk_def)

text \<open>
  C5. Once the aborted flag is set on a saga, no further forward step executes: a call
  of \<open>execStep\<close> returns at once, with the saga as it was (no log entry, no call, nothing
  recorded), and so does the rest of the loop of \<open>Play\<close>.
\<close>

theorem aborted_stops_forward_steps:
  "aborted s \<Longrightarrow> execStep i s = Ok () s \<and> playLoop i s = Ok () s"
  by (simp add: execStep_def playLoop_aborted)

theorem aborted_stops_forward_steps_witness:
  "execStep 0 ((sagaOf [newStep ''first'' mockOk mockOk])\<lparr>aborted := True\<rparr>)
     = Ok () ((sagaOf [newStep ''first'' mockOk mockOk])\<lparr>aborted := True\<rparr>) \<and>
   playLoop 0 ((sagaOf [newStep ''first'' mockOk mockOk])\<lparr>aborted := True\<rparr>)
     = Ok () ((sagaOf [newStep ''first'' mockOk mockOk])\<lparr>aborted := True\<rparr>)"
  using aborted_stops_forward_steps
    [of "(sagaOf [newStep ''first'' mockOk mockOk])\<lparr>aborted := True\<rparr>" 0]
  by simp

text \<open>
  C6. Round trip: in a run of \<open>Play\<close> on a saga that has made no call yet, every call
  with the number of step \<open>i\<close> runs the function that step \<open>i\<close> registers, forward or
  compensating, and every call of the compensating function of step \<open>i\<close> gets the context
  followed by the values that the one forward call of step \<open>i\<close> returned, without the last
  of them, unchanged and in the same order.
\<close>

theorem outputs_reach_own_compensation:
  assumes "fresh s" and "calls (trace s) = []"
  shows "roundTrip (steps s) (trace (final (Play s)))"
proof -
  define s1 where "s1 = logged (newLog s LogTypeStartSaga None None) s"
  from assms have m: "recordMatches (steps s) s1"
    by (simp add: s1_def recordMatches_def fresh_def matches_no_calls)
  from assms have len: "length (returnedValuesFromFunc s1) = 0"
    by (simp add: s1_def fresh_def)
  from m len have p: "roundTrip (steps s) (trace (final (playLoop 0 s1)))"
    by (intro keepsRoundTrip_playLoop) simp_all
  from m have rt1: "roundTrip (steps s) (trace s1)"
    by (rule recordMatches_roundTrip)
  show ?thesis
  proof (cases "playLoop 0 s1")
    case (Ok u s2)
    with p have "roundTrip (steps s) (trace (logged l' s2))" for l'
      by (simp add: roundTrip_Appended)
    with Ok rt1 show ?thesis
      by (simp add: Play_def appendLog_def s1_def [symmetric] split: option.splits)
  next
    case (Panic q s2)
    with p rt1 show ?thesis
      by (simp add: Play_def appendLog_def s1_def [symmetric] split: option.splits)
  qed
qed

theorem outputs_reach_own_compensation_witness:
  "fresh (sagaOf [newStep ''first'' helloOk undoHello, newStep ''second'' sevenErr undoSeven]) \<and>
   calls (trace (sagaOf [newStep ''first'' helloOk undoHello, newStep ''second'' sevenErr undoSeven])) = [] \<and>
   roundTrip (steps (sagaOf [newStep ''first'' helloOk undoHello, newStep ''second'' sevenErr undoSeven])) (trace (final (Play (sagaOf [newStep ''first'' helloOk undoHello, newStep ''second'' sevenErr undoSeven])))) \<and>
   [ev \<leftarrow> trace (final (Play (sagaOf [newStep ''first'' helloOk undoHello, newStep ''second'' sevenErr undoSeven]))). calls [ev] \<noteq> []]
     = [FuncCalled 0 [VContext] 0 [VString ''hello'', VError None] 1,
        FuncCalled 1 [VContext] 1 [VInt 7, VError (Some ''some error'')] 2,
        CompensateCalled 1 [VContext, VInt 7] 2 [VError None] 12,
        CompensateCalled 0 [VContext, VString ''hello''] 12 [VError None] 13]"
  using outputs_reach_own_compensation [of "sagaOf [newStep ''first'' helloOk undoHello, newStep ''second'' sevenErr undoSeven]"]
  by (simp add: fresh_def run_defs acceptingStore_def helloOk_def undoHello_def
      sevenErr_def undoSeven_def)

text \<open>
  C7. The claim is that \<open>Play\<close> always returns a Result and never panics when a forward
  step or a compensating function returns an error. The code does otherwise for the
  compensating function: here the one step fails, its compensating function returns an
  error, and \<open>Play\<close> panics with that error instead of returning a Result.
\<close>

theorem play_panics_on_compensation_error:
  "\<not> returns (Play (sagaOf [newStep ''single'' (mockErr ''hello'') (mockErr ''compensate error'')])) \<and>
   (case Play (sagaOf [newStep ''single'' (mockErr ''hello'') (mockErr ''compensate error'')]) of
      Panic p s' \<Rightarrow> p = ErrPanic ''compensate error'' | Ok r s' \<Rightarrow> False) \<and>
   calls (trace (final (Play (sagaOf [newStep ''single'' (mockErr ''hello'') (mockErr ''compensate error'')])))) = [Forward 0, Compensation 0] \<and>
   logTypes (trace (final (Play (sagaOf [newStep ''single'' (mockErr ''hello'') (mockErr ''compensate error'')]))))
     = [LogTypeStartSaga, LogTypeSagaStepExec, LogTypeSagaAbort, LogTypeSagaStepCompensate]"
  by (simp add: run_defs acceptingStore_def mockErr_def)

text \<open>
  C8. Every forward function is called with exactly one argument, the saga's context:
  whatever a run of \<open>Play\<close> adds to the forward calls made so far, each of them has the
  argument list \<open>[VContext]\<close>, so no value returned by an earlier step reaches a later
  forward call.
\<close>

theorem forward_gets_context_only:
  "set (forwardArgs (trace (final (Play s)))) \<subseteq> insert [VContext] (set (forwardArgs (trace s)))"
  using argsWithin_Play [of "set (forwardArgs (trace s))" s]
  by (auto simp: argsWithin_def)

theorem forward_gets_context_only_witness:
  "set (forwardArgs (trace (final (Play (sagaOf [newStep ''first'' helloErr undoHello])))))
     \<subseteq> {[VContext]}"
  using forward_gets_context_only [of "sagaOf [newStep ''first'' helloErr undoHello]"]
  by simp

text \<open>
  C9. If \<open>AppendLog\<close> returns an error for an entry, the run ends there: \<open>Play\<close> panics
  with that error (\<open>checkErr\<close>), and the failed \<open>AppendLog\<close> is the last thing the run
  did; no call and no log entry follows it.
\<close>

theorem store_failure_stops_the_run:
  assumes "failedAppends (trace s) = []"
  shows "storeFailureIsFatal (Play s)"
proof (cases "appendLog (newLog s LogTypeStartSaga None None) s")
  case (Ok u s1)
  with fatal_appendLog [OF assms, of "newLog s LogTypeStartSaga None None"]
  have "storeFailureIsFatal (playLoop 0 s1)"
    by (intro fatal_playLoop) simp
  then show ?thesis
  proof (cases "playLoop 0 s1")
    case inner: (Ok u2 s2)
    with \<open>storeFailureIsFatal (playLoop 0 s1)\<close>
    have "storeFailureIsFatal (appendLog (newLog s2 LogTypeSagaComplete None None) s2)"
      by (intro fatal_appendLog) simp
    with Ok inner show ?thesis
      by (cases "appendLog (newLog s2 LogTypeSagaComplete None None) s2") (simp_all add: Play_def)
  next
    case (Panic p s2)
    with Ok \<open>storeFailureIsFatal (playLoop 0 s1)\<close> show ?thesis
      by (simp add: Play_def)
  qed
next
  case (Panic p s1)
  with fatal_appendLog [OF assms, of "newLog s LogTypeStartSaga None None"] show ?thesis
    by (simp add: Play_def)
qed

theorem store_failure_stops_the_run_witness:
  "failedAppends (trace (sagaWith (refusing LogTypeSagaAbort)
       [newStep ''first'' (mockErr ''some error'') mockOk])) = [] \<and>
   storeFailureIsFatal (Play (sagaWith (refusing LogTypeSagaAbort)
       [newStep ''first'' (mockErr ''some error'') mockOk])) \<and>
   failedAppends (trace (final (Play (sagaWith (refusing LogTypeSagaAbort)
       [newStep ''first'' (mockErr ''some error'') mockOk])))) = [''store is down'']"
  using store_failure_stops_the_run
    [of "sagaWith (refusing LogTypeSagaAbort) [newStep ''first'' (mockErr ''some error'') mockOk]"]
  by (simp add: run_defs refusing_def mockErr_def mockOk_def)

text \<open>
  C10. A forward function that returns no value counts as a success: \<open>isReturnError\<close>
  gives nil for the empty list of results, so \<open>execStep\<close> records the step, leaves the
  saga's error as it was, does not abort and calls no compensating function.
\<close>

theorem zero_values_is_success:
  assumes "\<not> aborted s" and "i < length (steps s)" and "storeWorks s"
    and "forwardValid (steps s ! i)" and "accepted (CompensateFunc (steps s ! i))"
    and "returnsNothing (steps s ! i)"
  shows "isReturnError [] = Inr None \<and>
         execStep i s = Ok () (afterForward i s) \<and>
         err (afterForward i s) = err s \<and> \<not> aborted (afterForward i s) \<and>
         calls (trace (afterForward i s)) = calls (trace s) @ [Forward i] \<and>
         logTypes (trace (afterForward i s)) = logTypes (trace s) @ [LogTypeSagaStepExec]"
proof -
  have nil: "isReturnError [] = Inr None"
    by (simp add: isReturnError_def)
  have "forwardResult i s = []"
    using assms(6) by (simp add: returnsNothing_def forwardResult_def)
  with nil assms show ?thesis
    by (simp add: execStep_run afterForward_trace execLog_def newLog_def)
qed

theorem zero_values_is_success_witness:
  "execStep 0 (sagaOf [newStep ''first'' mockSilent mockOk])
     = Ok () (afterForward 0 (sagaOf [newStep ''first'' mockSilent mockOk])) \<and>
   err (afterForward 0 (sagaOf [newStep ''first'' mockSilent mockOk])) = None \<and>
   \<not> aborted (afterForward 0 (sagaOf [newStep ''first'' mockSilent mockOk])) \<and>
   calls (trace (afterForward 0 (sagaOf [newStep ''first'' mockSilent mockOk]))) = [Forward 0]"
  using zero_values_is_success [of "sagaOf [newStep ''first'' mockSilent mockOk]" 0]
  by (simp add: storeWorks_def acceptingStore_def forwardValid_def accepted_def
      returnsNothing_def newStep_def mockSilent_def mockOk_def)

end
